theory Spec2Isabelle
  imports Main "HOL-Library.Word"
begin

section \<open>Text: runes and strings\<close>

text \<open>
  A Go \<^verbatim>\<open>rune\<close> is an \<^verbatim>\<open>int32\<close> holding a code point. The resolver works on
  \<^verbatim>\<open>cmdRunes := []rune(command)\<close>, so the command is taken here as that rune slice.
  A Go string is represented by its sequence of code points (text that is valid UTF-8):
  \<^verbatim>\<open>string(cmdRunes[a:b])\<close>, \<^verbatim>\<open>WriteRune\<close> and \<^verbatim>\<open>WriteString\<close> are then the slice itself,
  appending one rune, and appending a sequence.
\<close>

type_synonym rune = "32 word"
type_synonym gostring = "rune list"

definition runes :: "string \<Rightarrow> rune list" where
  \<comment> \<open>\<^verbatim>\<open>[]rune(s)\<close> for an ASCII literal \<open>s\<close>: one rune per byte.\<close>
  "runes s = map of_char s"

definition dollar :: rune where "dollar = 0x24"
definition lparen :: rune where "lparen = 0x28"
definition rparen :: rune where "rparen = 0x29"
definition lbrace :: rune where "lbrace = 0x7B"
definition rbrace :: rune where "rbrace = 0x7D"

section \<open>findEndingParenthesis\<close>

text \<open>
  \<^verbatim>\<open>
  func findEndingParenthesis(r []rune, openIdx int, open rune, close rune) int {
      if openIdx < 0 || openIdx >= len(r) || r[openIdx] != open { return -1 }
      openCount := 1
      i := openIdx + 1
      for i < len(r) && openCount != 0 {
          if r[i] == open { openCount++ } else if r[i] == close { openCount-- }
          if openCount != 0 { i++ }
      }
      return i
  }
  \<close>
  The parameters \<^verbatim>\<open>open\<close> and \<^verbatim>\<open>close\<close> are written \<open>opn\<close> and \<open>cls\<close>. Go's \<^verbatim>\<open>int\<close>
  is \<open>int\<close>: \<^verbatim>\<open>openCount\<close> and \<^verbatim>\<open>i\<close> are bounded by the length of the slice, so
  no 64-bit addition wraps. The loop is one recursive call per iteration, on the
  variables \<^verbatim>\<open>i\<close> and \<^verbatim>\<open>openCount\<close>.
\<close>

function findEndingParenthesis_loop :: "rune list \<Rightarrow> rune \<Rightarrow> rune \<Rightarrow> nat \<Rightarrow> int \<Rightarrow> nat" where
  "findEndingParenthesis_loop r opn cls i openCount =
     (if i < length r \<and> openCount \<noteq> 0 then
        let openCount' = (if r ! i = opn then openCount + 1
                          else if r ! i = cls then openCount - 1
                          else openCount)
        in findEndingParenthesis_loop r opn cls (if openCount' \<noteq> 0 then i + 1 else i) openCount'
      else i)"
  by pat_completeness auto
termination
  by (relation "measure (\<lambda>(r, opn, cls, i, oc). 2 * (length r - i) + (if oc \<noteq> 0 then 1 else 0))")
     (auto simp: Let_def)

declare findEndingParenthesis_loop.simps [simp del]

definition findEndingParenthesis :: "rune list \<Rightarrow> int \<Rightarrow> rune \<Rightarrow> rune \<Rightarrow> int" where
  "findEndingParenthesis r openIdx opn cls =
     (if openIdx < 0 \<or> openIdx \<ge> int (length r) \<or> r ! nat openIdx \<noteq> opn then - 1
      else int (findEndingParenthesis_loop r opn cls (nat openIdx + 1) 1))"

section \<open>resolveShellSubstitution\<close>

text \<open>
  The error values the resolver returns. \<^verbatim>\<open>fmt.Errorf("unexpected error in tokenization")\<close>
  is \<open>UnexpectedTokenization\<close>; \<^verbatim>\<open>curlyBracketParMatchError()\<close> and
  \<^verbatim>\<open>bracketParMatchError()\<close> are constants; \<^verbatim>\<open>envVarNotFoundError{varName: ...}\<close> carries
  the name; \<^verbatim>\<open>fmt.Errorf("could not execute shell substitution command : %s : %w", subCmd, err)\<close>
  carries the command text and wraps the executor's error (\<open>None\<close> is a nil \<^verbatim>\<open>err\<close>).
\<close>

datatype 'e error =
    UnexpectedTokenization
  | CurlyBracketParMatchError
  | BracketParMatchError
  | EnvVarNotFoundError gostring
  | ShellSubstitutionError gostring "'e option"

text \<open>
  The two collaborators are parameters. \<^verbatim>\<open>os.LookupEnv\<close> is a map from names to values.
  \<^verbatim>\<open>utils.ExecuteCommandInShell(timeout, cwd, cmd)\<close> returns
  \<^verbatim>\<open>(retCode int, output string, err error)\<close>; running a command may change the world
  outside the program, so the executor takes a state \<open>'w\<close> and returns the new one, and
  the resolver threads it through its calls in the order it makes them.
\<close>

type_synonym environ = "gostring \<Rightarrow> gostring option"

type_synonym ('w, 'e) executor =
  "'w \<Rightarrow> int \<Rightarrow> gostring \<Rightarrow> gostring \<Rightarrow> (int \<times> gostring \<times> 'e option) \<times> 'w"

definition go_slice :: "'a list \<Rightarrow> nat \<Rightarrow> nat \<Rightarrow> 'a list" where
  \<comment> \<open>\<^verbatim>\<open>xs[a:b]\<close>, for \<open>a \<le> b \<le> length xs\<close> (Go panics otherwise; see \<open>go_slice_bounds\<close>).\<close>
  "go_slice xs a b = take (b - a) (drop a xs)"

text \<open>
  A Go function returning \<^verbatim>\<open>(string, error)\<close> returns both values; the model returns the
  pair, with \<open>None\<close> for a nil error, next to the world after the call. One call of
  \<open>resolve_loop\<close> is one test of the loop condition \<^verbatim>\<open>i < len(cmdRunes)\<close> followed by one
  iteration of the body, on the variables \<^verbatim>\<open>i\<close> and \<^verbatim>\<open>resCommand\<close>. The source's
  \<^verbatim>\<open>end\<close> is \<open>endIdx\<close>, its \<^verbatim>\<open>value\<close> is \<open>val\<close>. The \<^verbatim>\<open>slog.Debug\<close> call on a
  nonzero exit code writes to the log only and is left out.
\<close>

lemma findEndingParenthesis_loop_ge:
  "i \<le> findEndingParenthesis_loop r opn cls i oc"
proof (induction r opn cls i oc rule: findEndingParenthesis_loop.induct)
  case (1 r opn cls i oc)
  show ?case
  proof (cases "i < length r \<and> oc \<noteq> 0")
    case False
    then show ?thesis
      by (subst findEndingParenthesis_loop.simps) auto
  next
    case True
    define oc' where "oc' = (if r ! i = opn then oc + 1 else if r ! i = cls then oc - 1 else oc)"
    have "(if oc' \<noteq> 0 then i + 1 else i)
            \<le> findEndingParenthesis_loop r opn cls (if oc' \<noteq> 0 then i + 1 else i) oc'"
      using "1.IH" [OF True oc'_def] .
    moreover have "findEndingParenthesis_loop r opn cls i oc =
        findEndingParenthesis_loop r opn cls (if oc' \<noteq> 0 then i + 1 else i) oc'"
      using True by (subst findEndingParenthesis_loop.simps) (simp add: oc'_def Let_def)
    ultimately show ?thesis by (auto split: if_splits)
  qed
qed

lemma findEndingParenthesis_gt:
  "findEndingParenthesis r openIdx opn cls \<noteq> - 1 \<Longrightarrow> openIdx < findEndingParenthesis r openIdx opn cls"
  using findEndingParenthesis_loop_ge [of "nat openIdx + 1" r opn cls 1]
  by (auto simp: findEndingParenthesis_def split: if_splits)

function resolve_loop ::
  "('w, 'e) executor \<Rightarrow> environ \<Rightarrow> int \<Rightarrow> gostring \<Rightarrow> rune list \<Rightarrow> nat \<Rightarrow> gostring \<Rightarrow> 'w
     \<Rightarrow> (gostring \<times> 'e error option) \<times> 'w" where
  "resolve_loop ex env subCmdTimeout cwdLocation cmdRunes i resCommand w =
     (if i < length cmdRunes then
        if i + 1 < length cmdRunes \<and> cmdRunes ! i = dollar then
          if cmdRunes ! (i + 1) = lbrace then
            let endIdx = findEndingParenthesis cmdRunes (int (i + 1)) lbrace rbrace in
            if endIdx = - 1 then (([], Some UnexpectedTokenization), w)
            else if endIdx = int (length cmdRunes) then (([], Some CurlyBracketParMatchError), w)
            else
              let envVarName = go_slice cmdRunes (i + 2) (nat endIdx) in
              (case env envVarName of
                 None \<Rightarrow> (([], Some (EnvVarNotFoundError envVarName)), w)
               | Some val \<Rightarrow>
                   resolve_loop ex env subCmdTimeout cwdLocation cmdRunes
                     (nat (endIdx + 1)) (resCommand @ val) w)
          else if cmdRunes ! (i + 1) = lparen then
            let endIdx = findEndingParenthesis cmdRunes (int (i + 1)) lparen rparen in
            if endIdx = - 1 then (([], Some UnexpectedTokenization), w)
            else if endIdx = int (length cmdRunes) then (([], Some BracketParMatchError), w)
            else
              let subCmd = go_slice cmdRunes (i + 2) (nat endIdx) in
              (case ex w subCmdTimeout cwdLocation subCmd of
                 ((retCode, output, err), w') \<Rightarrow>
                   if retCode = - 1 then (([], Some (ShellSubstitutionError subCmd err)), w')
                   else
                     resolve_loop ex env subCmdTimeout cwdLocation cmdRunes
                       (nat (endIdx + 1)) (resCommand @ output) w')
          else
            resolve_loop ex env subCmdTimeout cwdLocation cmdRunes
              (i + 1) (resCommand @ [cmdRunes ! i]) w
        else
          resolve_loop ex env subCmdTimeout cwdLocation cmdRunes
            (i + 1) (resCommand @ [cmdRunes ! i]) w
      else ((resCommand, None), w))"
  by pat_completeness auto
termination
proof (relation "measure (\<lambda>(ex, env, t, cwd, cmdRunes, i, resCommand, w). length cmdRunes - i)")
  show "wf (measure (\<lambda>(ex :: ('w, 'e) executor, env :: environ, t :: int, cwd :: gostring,
      cmdRunes :: rune list, i :: nat, resCommand :: gostring, w :: 'w). length cmdRunes - i))"
    by simp
qed (use findEndingParenthesis_gt in \<open>force+\<close>)

declare resolve_loop.simps [simp del]

definition resolveShellSubstitution ::
  "('w, 'e) executor \<Rightarrow> environ \<Rightarrow> int \<Rightarrow> gostring \<Rightarrow> gostring \<Rightarrow> 'w
     \<Rightarrow> (gostring \<times> 'e error option) \<times> 'w" where
  "resolveShellSubstitution ex env subCmdTimeout command cwdLocation w =
     resolve_loop ex env subCmdTimeout cwdLocation command 0 [] w"

section \<open>tokenizePromptCommand\<close>

text \<open>
  \<^verbatim>\<open>unicode.IsSpace\<close> and \<^verbatim>\<open>strings.Fields\<close> of the Go standard library.
  \<^verbatim>\<open>IsSpace\<close> holds of the runes with the property White_Space. \<^verbatim>\<open>Fields\<close> splits
  around each run of such runes; it is written as its scanning loop, which keeps the
  field being read (\<open>None\<close> between fields) and the fields completed so far.
\<close>

definition isSpace :: "rune \<Rightarrow> bool" where
  "isSpace r =
     (r = 0x09 \<or> r = 0x0A \<or> r = 0x0B \<or> r = 0x0C \<or> r = 0x0D \<or> r = 0x20 \<or> r = 0x85 \<or> r = 0xA0
      \<or> r = 0x1680 \<or> (0x2000 \<le> r \<and> r \<le> 0x200A) \<or> r = 0x2028 \<or> r = 0x2029
      \<or> r = 0x202F \<or> r = 0x205F \<or> r = 0x3000)"

fun Fields_loop :: "gostring \<Rightarrow> gostring option \<Rightarrow> gostring list \<Rightarrow> gostring list" where
  "Fields_loop [] None spans = spans"
| "Fields_loop [] (Some field) spans = spans @ [field]"
| "Fields_loop (c # cs) None spans =
     (if isSpace c then Fields_loop cs None spans else Fields_loop cs (Some [c]) spans)"
| "Fields_loop (c # cs) (Some field) spans =
     (if isSpace c then Fields_loop cs None (spans @ [field])
      else Fields_loop cs (Some (field @ [c])) spans)"

definition Fields :: "gostring \<Rightarrow> gostring list" where
  "Fields s = Fields_loop s None []"

text \<open>
  \<^verbatim>\<open>
  func tokenizePromptCommand(command string, cwdLocation string) ([]string, error) {
      command, err := resolveShellSubstitution(shellSubTimeout, command, cwdLocation)
      if err != nil { return nil, err }
      return strings.Fields(command), nil
  }
  \<close>
  The package constant \<^verbatim>\<open>shellSubTimeout\<close> is a parameter. A nil slice is \<open>None\<close>; the
  slice \<^verbatim>\<open>Fields\<close> returns is never nil.
\<close>

definition tokenizePromptCommand ::
  "('w, 'e) executor \<Rightarrow> environ \<Rightarrow> int \<Rightarrow> gostring \<Rightarrow> gostring \<Rightarrow> 'w
     \<Rightarrow> (gostring list option \<times> 'e error option) \<times> 'w" where
  "tokenizePromptCommand ex env shellSubTimeout command cwdLocation w =
     (case resolveShellSubstitution ex env shellSubTimeout command cwdLocation w of
        ((command', err), w') \<Rightarrow>
          if err \<noteq> None then ((None, err), w')
          else ((Some (Fields command'), None), w'))"

section \<open>The shell executor\<close>





section \<open>The quote-aware tokenizer\<close>

text \<open>
  Modelled from the spec: \<^verbatim>\<open>tokenizeWithQuotes\<close>, of which only the tests are at hand.
  The spec describes a machine with three modes and a one-character escape; it is
  written here as a scan over the remaining input that carries the mode, the token
  being built (\<open>None\<close> when no token is open) and the tokens completed so far. The
  escape-pending flag is the look at the character after a backslash.
  \<^item> Bare mode: white space closes the open token and is skipped; a quote opens its
    quoted mode, starting a token if none is open; a backslash appends the next character
    literally, and is a \<open>DanglingEscape\<close> at the end of the input; any other character is
    appended.
  \<^item> Single-quoted mode: a backslash before \<^verbatim>\<open>'\<close> gives \<^verbatim>\<open>'\<close>; any other backslash is
    kept; \<^verbatim>\<open>'\<close> closes the mode; the end of the input is an \<open>UnterminatedQuote\<close>.
  \<^item> Double-quoted mode: a backslash before \<^verbatim>\<open>"\<close> or a backslash gives that character;
    before any other character both are kept; at the end of the input it is a
    \<open>DanglingEscape\<close>; \<^verbatim>\<open>"\<close> closes the mode; the end of the input is an
    \<open>UnterminatedQuote\<close>.
  \<^item> Closing a quote completes the token, also when it is empty.
  On an error no tokens are returned (\<open>None\<close>).
\<close>

definition squote :: rune where "squote = 0x27"
definition dquote :: rune where "dquote = 0x22"
definition backslash :: rune where "backslash = 0x5C"

datatype tokenize_error = UnterminatedQuote | DanglingEscape

datatype quote_mode = Bare | SingleQuoted | DoubleQuoted

definition append_token :: "gostring option \<Rightarrow> gostring \<Rightarrow> gostring option" where
  "append_token cur cs = Some (case cur of None \<Rightarrow> cs | Some tok \<Rightarrow> tok @ cs)"

definition complete_token :: "gostring option \<Rightarrow> gostring list \<Rightarrow> gostring list" where
  "complete_token cur tokens = (case cur of None \<Rightarrow> tokens | Some tok \<Rightarrow> tokens @ [tok])"

fun tokenize_loop ::
  "quote_mode \<Rightarrow> gostring option \<Rightarrow> gostring list \<Rightarrow> gostring
     \<Rightarrow> gostring list option \<times> tokenize_error option" where
  \<comment> \<open>Modelled from the spec: the state machine of the quote-aware tokenizer.\<close>
  "tokenize_loop Bare cur tokens [] = (Some (complete_token cur tokens), None)"
| "tokenize_loop SingleQuoted cur tokens [] = (None, Some UnterminatedQuote)"
| "tokenize_loop DoubleQuoted cur tokens [] = (None, Some UnterminatedQuote)"
| "tokenize_loop Bare cur tokens [c] =
     (if isSpace c then tokenize_loop Bare None (complete_token cur tokens) []
      else if c = squote then tokenize_loop SingleQuoted (append_token cur []) tokens []
      else if c = dquote then tokenize_loop DoubleQuoted (append_token cur []) tokens []
      else if c = backslash then (None, Some DanglingEscape)
      else tokenize_loop Bare (append_token cur [c]) tokens [])"
| "tokenize_loop Bare cur tokens (c # d # cs) =
     (if isSpace c then tokenize_loop Bare None (complete_token cur tokens) (d # cs)
      else if c = squote then tokenize_loop SingleQuoted (append_token cur []) tokens (d # cs)
      else if c = dquote then tokenize_loop DoubleQuoted (append_token cur []) tokens (d # cs)
      else if c = backslash then tokenize_loop Bare (append_token cur [d]) tokens cs
      else tokenize_loop Bare (append_token cur [c]) tokens (d # cs))"
| "tokenize_loop SingleQuoted cur tokens [c] =
     (if c = squote then tokenize_loop Bare None (complete_token (append_token cur []) tokens) []
      else tokenize_loop SingleQuoted (append_token cur [c]) tokens [])"
| "tokenize_loop SingleQuoted cur tokens (c # d # cs) =
     (if c = backslash \<and> d = squote
      then tokenize_loop SingleQuoted (append_token cur [squote]) tokens cs
      else if c = squote
      then tokenize_loop Bare None (complete_token (append_token cur []) tokens) (d # cs)
      else tokenize_loop SingleQuoted (append_token cur [c]) tokens (d # cs))"
| "tokenize_loop DoubleQuoted cur tokens [c] =
     (if c = backslash then (None, Some DanglingEscape)
      else if c = dquote
      then tokenize_loop Bare None (complete_token (append_token cur []) tokens) []
      else tokenize_loop DoubleQuoted (append_token cur [c]) tokens [])"
| "tokenize_loop DoubleQuoted cur tokens (c # d # cs) =
     (if c = backslash then
        (if d = dquote \<or> d = backslash
         then tokenize_loop DoubleQuoted (append_token cur [d]) tokens cs
         else tokenize_loop DoubleQuoted (append_token cur [backslash, d]) tokens cs)
      else if c = dquote
      then tokenize_loop Bare None (complete_token (append_token cur []) tokens) (d # cs)
      else tokenize_loop DoubleQuoted (append_token cur [c]) tokens (d # cs))"

definition tokenizeWithQuotes :: "gostring \<Rightarrow> gostring list option \<times> tokenize_error option" where
  \<comment> \<open>Modelled from the spec: \<^verbatim>\<open>tokenize(text) -> (tokens, error)\<close>.\<close>
  "tokenizeWithQuotes command = tokenize_loop Bare None [] command"

section \<open>The depth counter of the bracket matcher, as the spec words it\<close>

text \<open>
  The spec's account of the matcher, to be compared with the loop above: a depth that
  starts at 1; each occurrence of the opening character after \<open>open_idx\<close> adds one, each
  occurrence of the closing character takes one away. \<open>spec_depth seq open_idx o c j\<close>
  is that depth after the characters at the indices \<open>open_idx + 1, \<dots>, j\<close>.
\<close>

definition spec_depth :: "rune list \<Rightarrow> int \<Rightarrow> rune \<Rightarrow> rune \<Rightarrow> int \<Rightarrow> int" where
  "spec_depth seq open_idx open_char close_char j =
     (let seen = go_slice seq (nat open_idx + 1) (nat j + 1)
      in 1 + int (count_list seen open_char) - int (count_list seen close_char))"

text \<open>
  Two auxiliary functions for the proofs: \<open>scan\<close> is the matcher's loop as a recursion on
  the runes not yet read, returning how many it steps over; \<open>net\<close> is the change of the
  spec's depth over a run of characters.
\<close>

fun scan :: "rune \<Rightarrow> rune \<Rightarrow> rune list \<Rightarrow> int \<Rightarrow> nat" where
  "scan opn cls [] oc = 0"
| "scan opn cls (c # cs) oc =
     (if oc = 0 then 0
      else let oc' = (if c = opn then oc + 1 else if c = cls then oc - 1 else oc)
           in if oc' = 0 then 0 else Suc (scan opn cls cs oc'))"

definition net :: "rune \<Rightarrow> rune \<Rightarrow> rune list \<Rightarrow> int" where
  "net opn cls xs = int (count_list xs opn) - int (count_list xs cls)"

section \<open>Auxiliary notions for the statements\<close>

text \<open>
  \<open>is_field\<close> says that a token is not empty and holds no white space.
  \<open>prepend_tokens first res\<close> puts the tokens \<open>first\<close> in front of the tokens of a
  tokenizer result, and leaves an error result as it is.
\<close>

definition is_field :: "gostring \<Rightarrow> bool" where
  "is_field tok = (tok \<noteq> [] \<and> list_all (\<lambda>c. \<not> isSpace c) tok)"

definition prepend_tokens ::
  "gostring list \<Rightarrow> gostring list option \<times> tokenize_error option
     \<Rightarrow> gostring list option \<times> tokenize_error option" where
  "prepend_tokens first res =
     (case res of (Some tokens, err) \<Rightarrow> (Some (first @ tokens), err) | (None, err) \<Rightarrow> (None, err))"

lemmas eval_defs = runes_def dollar_def lparen_def rparen_def lbrace_def rbrace_def
  findEndingParenthesis_def findEndingParenthesis_loop.simps resolve_loop.simps
  resolveShellSubstitution_def tokenizePromptCommand_def go_slice_def Fields_def isSpace_def
  spec_depth_def

section \<open>Properties of the bracket matcher\<close>

lemma scan_zero [simp]: "scan opn cls cs 0 = 0"
  by (cases cs) simp_all

lemma loop_scan:
  "i \<le> length r \<Longrightarrow> findEndingParenthesis_loop r opn cls i oc = i + scan opn cls (drop i r) oc"
proof (induction r opn cls i oc rule: findEndingParenthesis_loop.induct)
  case (1 r opn cls i oc)
  show ?case
  proof (cases "i < length r \<and> oc \<noteq> 0")
    case False
    then show ?thesis using "1.prems"
      by (cases "drop i r") (auto simp: findEndingParenthesis_loop.simps [of r opn cls i oc])
  next
    case True
    then have d: "drop i r = r ! i # drop (Suc i) r"
      by (simp add: Cons_nth_drop_Suc)
    define oc' where "oc' = (if r ! i = opn then oc + 1 else if r ! i = cls then oc - 1 else oc)"
    have step: "findEndingParenthesis_loop r opn cls i oc =
        findEndingParenthesis_loop r opn cls (if oc' \<noteq> 0 then i + 1 else i) oc'"
      using True by (subst findEndingParenthesis_loop.simps) (simp add: oc'_def Let_def)
    have ih: "findEndingParenthesis_loop r opn cls (if oc' \<noteq> 0 then i + 1 else i) oc' =
        (if oc' \<noteq> 0 then i + 1 else i) + scan opn cls (drop (if oc' \<noteq> 0 then i + 1 else i) r) oc'"
      using "1.IH" [OF True oc'_def] True by simp
    show ?thesis
      using step ih True d by (simp add: oc'_def Let_def)
  qed
qed

lemma scan_le: "scan opn cls xs oc \<le> length xs"
  by (induction xs arbitrary: oc) (auto simp: Let_def)

lemma scan_stops_at_close:
  "0 < oc \<Longrightarrow> scan opn cls xs oc < length xs \<Longrightarrow>
     xs ! scan opn cls xs oc = cls \<and> xs ! scan opn cls xs oc \<noteq> opn"
proof (induction xs arbitrary: oc)
  case Nil
  then show ?case by simp
next
  case (Cons c cs)
  define oc' where "oc' = (if c = opn then oc + 1 else if c = cls then oc - 1 else oc)"
  show ?case
  proof (cases "oc' = 0")
    case True
    with Cons.prems show ?thesis by (auto simp: oc'_def Let_def split: if_splits)
  next
    case False
    with Cons.prems have pos: "0 < oc'" by (auto simp: oc'_def)
    from False Cons.prems have sc: "scan opn cls (c # cs) oc = Suc (scan opn cls cs oc')"
      by (simp add: oc'_def Let_def)
    with Cons.prems have "scan opn cls cs oc' < length cs" by simp
    from Cons.IH [OF pos this] show ?thesis unfolding sc by auto
  qed
qed

lemma scan_positive_before:
  "opn \<noteq> cls \<Longrightarrow> 0 < oc \<Longrightarrow> k < scan opn cls xs oc \<Longrightarrow> 0 < oc + net opn cls (take (Suc k) xs)"
proof (induction xs arbitrary: oc k)
  case Nil
  then show ?case by simp
next
  case (Cons c cs)
  define oc' where "oc' = (if c = opn then oc + 1 else if c = cls then oc - 1 else oc)"
  from Cons.prems have nz: "oc' \<noteq> 0" and sc: "scan opn cls (c # cs) oc = Suc (scan opn cls cs oc')"
    by (auto simp: oc'_def Let_def split: if_splits)
  with Cons.prems have pos: "0 < oc'" by (auto simp: oc'_def split: if_splits)
  have one: "oc + net opn cls [c] = oc'"
    using Cons.prems(1) by (auto simp: oc'_def net_def)
  show ?case
  proof (cases k)
    case 0
    with pos one show ?thesis by simp
  next
    case (Suc k')
    with Cons.prems sc have "k' < scan opn cls cs oc'" by simp
    from Cons.IH [OF Cons.prems(1) pos this]
    have "0 < oc' + net opn cls (take (Suc k') cs)" .
    moreover have "net opn cls (take (Suc k) (c # cs)) = net opn cls [c] + net opn cls (take (Suc k') cs)"
      using Suc by (simp add: net_def)
    ultimately show ?thesis using one by simp
  qed
qed

lemma scan_zero_at_stop:
  "opn \<noteq> cls \<Longrightarrow> 0 < oc \<Longrightarrow> scan opn cls xs oc < length xs \<Longrightarrow>
     oc + net opn cls (take (Suc (scan opn cls xs oc)) xs) = 0"
proof (induction xs arbitrary: oc)
  case Nil
  then show ?case by simp
next
  case (Cons c cs)
  define oc' where "oc' = (if c = opn then oc + 1 else if c = cls then oc - 1 else oc)"
  have one: "oc + net opn cls [c] = oc'"
    using Cons.prems(1) by (auto simp: oc'_def net_def)
  show ?case
  proof (cases "oc' = 0")
    case True
    with Cons.prems have "scan opn cls (c # cs) oc = 0" by (simp add: oc'_def Let_def)
    with one True show ?thesis by simp
  next
    case False
    with Cons.prems have pos: "0 < oc'" by (auto simp: oc'_def)
    from False Cons.prems have sc: "scan opn cls (c # cs) oc = Suc (scan opn cls cs oc')"
      by (simp add: oc'_def Let_def)
    with Cons.prems have "scan opn cls cs oc' < length cs" by simp
    from Cons.IH [OF Cons.prems(1) pos this]
    have "oc' + net opn cls (take (Suc (scan opn cls cs oc')) cs) = 0" .
    moreover have "net opn cls (take (Suc (scan opn cls (c # cs) oc)) (c # cs))
        = net opn cls [c] + net opn cls (take (Suc (scan opn cls cs oc')) cs)"
      using sc by (simp add: net_def)
    ultimately show ?thesis using one by simp
  qed
qed

lemma findEndingParenthesis_ok:
  assumes "0 \<le> openIdx" "openIdx < int (length r)" "r ! nat openIdx = opn"
  shows "findEndingParenthesis r openIdx opn cls =
           openIdx + 1 + int (scan opn cls (drop (nat openIdx + 1) r) 1)"
  using assms by (simp add: findEndingParenthesis_def loop_scan)

lemma spec_depth_net:
  "0 \<le> open_idx \<Longrightarrow> open_idx < j \<Longrightarrow>
   spec_depth seq open_idx opn cls j
     = 1 + net opn cls (take (Suc (nat (j - open_idx - 1))) (drop (nat open_idx + 1) seq))"
proof -
  assume a: "0 \<le> open_idx" "open_idx < j"
  then have "nat j + 1 - (nat open_idx + 1) = Suc (nat (j - open_idx - 1))" by linarith
  then show ?thesis by (simp add: spec_depth_def go_slice_def net_def Let_def)
qed

lemma spec_depth_same_char:
  "spec_depth seq open_idx c c j = 1"
  by (simp add: spec_depth_def Let_def)

lemma findEndingParenthesis_closing_rune:
  assumes "findEndingParenthesis r openIdx opn cls = int e" "e < length r"
  shows "r ! e = cls"
proof -
  from assms(1) have pre: "0 \<le> openIdx" "openIdx < int (length r)" "r ! nat openIdx = opn"
    by (auto simp: findEndingParenthesis_def split: if_splits)
  define xs where "xs = drop (nat openIdx + 1) r"
  define n where "n = scan opn cls xs 1"
  from pre assms(1) have e: "int e = openIdx + 1 + int n"
    by (simp add: findEndingParenthesis_ok n_def xs_def)
  have len: "length xs = length r - (nat openIdx + 1)" by (simp add: xs_def)
  from e assms(2) pre len have lt: "n < length xs" by linarith
  then have "xs ! n = cls" using scan_stops_at_close [of 1 opn cls xs] by (auto simp: n_def)
  moreover have "xs ! n = r ! (nat openIdx + 1 + n)"
    using lt len unfolding xs_def by (simp add: add.commute)
  moreover have "e = nat openIdx + 1 + n" using pre e by linarith
  ultimately show ?thesis by simp
qed

text \<open>
  Claim C9. For every rune sequence, index and pair of brackets, the value
  \<^verbatim>\<open>findEndingParenthesis\<close> returns is \<open>-1\<close>, or it is greater than \<open>openIdx\<close> and at most
  the length of the sequence; and when it is less than the length, the rune at that
  index is the closing bracket.
\<close>

theorem findEndingParenthesis_range:
  "findEndingParenthesis r openIdx opn cls = - 1 \<or>
   (openIdx < findEndingParenthesis r openIdx opn cls \<and>
    findEndingParenthesis r openIdx opn cls \<le> int (length r) \<and>
    (findEndingParenthesis r openIdx opn cls < int (length r) \<longrightarrow>
       r ! nat (findEndingParenthesis r openIdx opn cls) = cls))"
proof (cases "openIdx < 0 \<or> openIdx \<ge> int (length r) \<or> r ! nat openIdx \<noteq> opn")
  case True
  then show ?thesis by (simp add: findEndingParenthesis_def)
next
  case False
  define n where "n = scan opn cls (drop (nat openIdx + 1) r) 1"
  from False have e: "findEndingParenthesis r openIdx opn cls = openIdx + 1 + int n"
    by (simp add: findEndingParenthesis_ok n_def)
  have "n \<le> length r - (nat openIdx + 1)"
    using scan_le [of opn cls "drop (nat openIdx + 1) r" 1] by (simp add: n_def)
  with False have le: "openIdx + 1 + int n \<le> int (length r)" by linarith
  have "r ! nat (openIdx + 1 + int n) = cls" if "openIdx + 1 + int n < int (length r)"
  proof (rule findEndingParenthesis_closing_rune)
    show "findEndingParenthesis r openIdx opn cls = int (nat (openIdx + 1 + int n))"
      using e False by simp
    show "nat (openIdx + 1 + int n) < length r" using that False by linarith
  qed
  with le show ?thesis unfolding e by simp
qed

theorem findEndingParenthesis_range_witness:
  "findEndingParenthesis (runes ''abc(def)'') 3 lparen rparen \<noteq> - 1 \<and>
   findEndingParenthesis (runes ''abc(def)'') 3 lparen rparen = 7 \<and>
   7 < int (length (runes ''abc(def)'')) \<and>
   runes ''abc(def)'' ! 7 = rparen"
  using findEndingParenthesis_range [of "runes ''abc(def)''" 3 lparen rparen]
  by (simp add: runes_def lparen_def rparen_def findEndingParenthesis_def
      findEndingParenthesis_loop.simps)

text \<open>
  Claim C2. When \<open>open_idx\<close> is out of bounds or does not hold the opening character the
  result is \<open>-1\<close>. Otherwise the result \<open>e\<close> lies after \<open>open_idx\<close> and is at most the
  length; the depth of the spec stays positive at every index between \<open>open_idx\<close> and
  \<open>e\<close>; when \<open>e\<close> is less than the length, the closing character stands at \<open>e\<close> and the
  depth is 0 there, so \<open>e\<close> is the first index where the depth reaches 0; and when the
  depth stays positive up to the end of the sequence, the result is the length. The two
  sentinels \<open>-1\<close> and the length are different numbers.
\<close>

theorem findEndingParenthesis_matching:
  "(open_idx < 0 \<or> int (length seq) \<le> open_idx \<or> seq ! nat open_idx \<noteq> open_char
      \<longrightarrow> findEndingParenthesis seq open_idx open_char close_char = - 1) \<and>
   (0 \<le> open_idx \<and> open_idx < int (length seq) \<and> seq ! nat open_idx = open_char \<longrightarrow>
      open_idx < findEndingParenthesis seq open_idx open_char close_char \<and>
      findEndingParenthesis seq open_idx open_char close_char \<le> int (length seq) \<and>
      (\<forall>j. open_idx < j \<and> j < findEndingParenthesis seq open_idx open_char close_char
            \<longrightarrow> 0 < spec_depth seq open_idx open_char close_char j) \<and>
      (findEndingParenthesis seq open_idx open_char close_char < int (length seq) \<longrightarrow>
         seq ! nat (findEndingParenthesis seq open_idx open_char close_char) = close_char \<and>
         spec_depth seq open_idx open_char close_char
           (findEndingParenthesis seq open_idx open_char close_char) = 0) \<and>
      ((\<forall>j. open_idx < j \<and> j < int (length seq)
            \<longrightarrow> 0 < spec_depth seq open_idx open_char close_char j)
         \<longrightarrow> findEndingParenthesis seq open_idx open_char close_char = int (length seq))) \<and>
   - 1 \<noteq> int (length seq)"
proof (intro conjI impI)
  assume "open_idx < 0 \<or> int (length seq) \<le> open_idx \<or> seq ! nat open_idx \<noteq> open_char"
  then show "findEndingParenthesis seq open_idx open_char close_char = - 1"
    by (auto simp: findEndingParenthesis_def)
next
  show "- 1 \<noteq> int (length seq)" by simp
next
  assume pre: "0 \<le> open_idx \<and> open_idx < int (length seq) \<and> seq ! nat open_idx = open_char"
  define xs where "xs = drop (nat open_idx + 1) seq"
  define n where "n = scan open_char close_char xs 1"
  define e where "e = findEndingParenthesis seq open_idx open_char close_char"
  from pre have e: "e = open_idx + 1 + int n"
    by (simp add: e_def findEndingParenthesis_ok n_def xs_def)
  have len: "length xs = length seq - (nat open_idx + 1)" by (simp add: xs_def)
  have le: "n \<le> length xs" unfolding n_def by (rule scan_le)
  have depth: "spec_depth seq open_idx open_char close_char j
      = 1 + net open_char close_char (take (Suc (nat (j - open_idx - 1))) xs)" if "open_idx < j" for j
    using that pre by (simp add: spec_depth_net xs_def)
  have stop: "xs ! n = close_char \<and> xs ! n \<noteq> open_char" if "n < length xs"
    using that scan_stops_at_close [of 1 open_char close_char xs] by (auto simp: n_def)
  have A: "open_idx < e" using e by simp
  have B: "e \<le> int (length seq)" using e le len pre by linarith
  have C: "\<forall>j. open_idx < j \<and> j < e \<longrightarrow> 0 < spec_depth seq open_idx open_char close_char j"
  proof (intro allI impI)
    fix j assume j: "open_idx < j \<and> j < e"
    show "0 < spec_depth seq open_idx open_char close_char j"
    proof (cases "open_char = close_char")
      case True
      then show ?thesis by (simp add: spec_depth_same_char)
    next
      case False
      from j e have "nat (j - open_idx - 1) < n" by linarith
      with scan_positive_before [OF False, of 1 "nat (j - open_idx - 1)" xs]
      have "0 < 1 + net open_char close_char (take (Suc (nat (j - open_idx - 1))) xs)"
        by (simp add: n_def)
      with depth j show ?thesis by simp
    qed
  qed
  have D: "seq ! nat e = close_char \<and> spec_depth seq open_idx open_char close_char e = 0"
    if lt: "e < int (length seq)"
  proof -
    from lt e len pre have nlt: "n < length xs" by linarith
    have ne: "open_char \<noteq> close_char" using stop [OF nlt] by auto
    have "xs ! n = seq ! (nat open_idx + 1 + n)"
      using nlt len unfolding xs_def by (simp add: add.commute)
    moreover have "nat e = nat open_idx + 1 + n" using pre e by linarith
    ultimately have "seq ! nat e = close_char" using stop [OF nlt] by simp
    moreover have "1 + net open_char close_char (take (Suc n) xs) = 0"
      using scan_zero_at_stop [OF ne, of 1 xs] nlt by (simp add: n_def)
    moreover have "nat (e - open_idx - 1) = n" using e by simp
    ultimately show ?thesis using depth [OF A] by simp
  qed
  have E: "e = int (length seq)"
    if all: "\<forall>j. open_idx < j \<and> j < int (length seq)
                \<longrightarrow> 0 < spec_depth seq open_idx open_char close_char j"
  proof (rule ccontr)
    assume "e \<noteq> int (length seq)"
    with B have lt: "e < int (length seq)" by simp
    from D [OF lt] all A lt show False by force
  qed
  show "open_idx < findEndingParenthesis seq open_idx open_char close_char"
    using A by (simp add: e_def)
  show "findEndingParenthesis seq open_idx open_char close_char \<le> int (length seq)"
    using B by (simp add: e_def)
  show "\<forall>j. open_idx < j \<and> j < findEndingParenthesis seq open_idx open_char close_char
            \<longrightarrow> 0 < spec_depth seq open_idx open_char close_char j"
    using C by (simp add: e_def)
  show "seq ! nat (findEndingParenthesis seq open_idx open_char close_char) = close_char"
    if "findEndingParenthesis seq open_idx open_char close_char < int (length seq)"
    using D that by (simp add: e_def)
  show "spec_depth seq open_idx open_char close_char
           (findEndingParenthesis seq open_idx open_char close_char) = 0"
    if "findEndingParenthesis seq open_idx open_char close_char < int (length seq)"
    using D that by (simp add: e_def)
  show "findEndingParenthesis seq open_idx open_char close_char = int (length seq)"
    if "\<forall>j. open_idx < j \<and> j < int (length seq)
            \<longrightarrow> 0 < spec_depth seq open_idx open_char close_char j"
    using E that by (simp add: e_def)
qed

theorem findEndingParenthesis_matching_witness:
  "findEndingParenthesis (runes ''abc'') 0 lparen rparen = - 1 \<and>
   findEndingParenthesis (runes ''abc(d(e{f})gh)'') 3 lparen rparen = 13 \<and>
   spec_depth (runes ''abc(d(e{f})gh)'') 3 lparen rparen 10 = 1 \<and>
   spec_depth (runes ''abc(d(e{f})gh)'') 3 lparen rparen 13 = 0 \<and>
   findEndingParenthesis (runes ''abc((d(e{f})gh)'') 3 lparen rparen = 15 \<and>
   int (length (runes ''abc((d(e{f})gh)'')) = 15"
  using findEndingParenthesis_matching [of 0 "runes ''abc''" lparen rparen]
    findEndingParenthesis_matching [of 3 "runes ''abc(d(e{f})gh)''" lparen rparen]
    findEndingParenthesis_matching [of 3 "runes ''abc((d(e{f})gh)''" lparen rparen]
  by (simp add: runes_def lparen_def rparen_def findEndingParenthesis_def
      findEndingParenthesis_loop.simps spec_depth_def go_slice_def)

section \<open>Properties of the resolver\<close>

lemma bracket_runes_distinct [simp]:
  "lbrace \<noteq> lparen" "lparen \<noteq> lbrace" "dollar \<noteq> lbrace" "dollar \<noteq> lparen"
  "lbrace \<noteq> rbrace" "lparen \<noteq> rparen"
  by (simp_all add: lbrace_def lparen_def dollar_def rbrace_def rparen_def)

lemma resolve_loop_done:
  "length r \<le> i \<Longrightarrow> resolve_loop ex env t cwd r i acc w = ((acc, None), w)"
  by (subst resolve_loop.simps) simp

lemma resolve_loop_copy:
  "i < length r \<Longrightarrow>
   \<not> (i + 1 < length r \<and> r ! i = dollar \<and> (r ! (i + 1) = lbrace \<or> r ! (i + 1) = lparen)) \<Longrightarrow>
   resolve_loop ex env t cwd r i acc w = resolve_loop ex env t cwd r (i + 1) (acc @ [r ! i]) w"
  by (subst resolve_loop.simps) auto

lemma resolve_loop_curly:
  assumes "i + 1 < length r" "r ! i = dollar" "r ! (i + 1) = lbrace"
    and "findEndingParenthesis r (int (i + 1)) lbrace rbrace = endIdx"
  shows "resolve_loop ex env t cwd r i acc w =
     (if endIdx = - 1 then (([], Some UnexpectedTokenization), w)
      else if endIdx = int (length r) then (([], Some CurlyBracketParMatchError), w)
      else case env (go_slice r (i + 2) (nat endIdx)) of
             None \<Rightarrow> (([], Some (EnvVarNotFoundError (go_slice r (i + 2) (nat endIdx)))), w)
           | Some val \<Rightarrow> resolve_loop ex env t cwd r (nat (endIdx + 1)) (acc @ val) w)"
  using assms by (subst resolve_loop.simps) (simp add: Let_def split: option.splits prod.splits)

lemma resolve_loop_round:
  assumes "i + 1 < length r" "r ! i = dollar" "r ! (i + 1) = lparen"
    and "findEndingParenthesis r (int (i + 1)) lparen rparen = endIdx"
  shows "resolve_loop ex env t cwd r i acc w =
     (if endIdx = - 1 then (([], Some UnexpectedTokenization), w)
      else if endIdx = int (length r) then (([], Some BracketParMatchError), w)
      else case ex w t cwd (go_slice r (i + 2) (nat endIdx)) of
             ((retCode, output, err), w') \<Rightarrow>
               if retCode = - 1
               then (([], Some (ShellSubstitutionError (go_slice r (i + 2) (nat endIdx)) err)), w')
               else resolve_loop ex env t cwd r (nat (endIdx + 1)) (acc @ output) w')"
  using assms by (subst resolve_loop.simps) (simp add: Let_def split: option.splits prod.splits)

lemma resolve_loop_step_cases:
  "(length r \<le> i \<and> resolve_loop ex env t cwd r i acc w = ((acc, None), w)) \<or>
   (\<exists>e w'. resolve_loop ex env t cwd r i acc w = (([], Some e), w')) \<or>
   (\<exists>i' add w'. i < i' \<and> i < length r \<and>
      resolve_loop ex env t cwd r i acc w = resolve_loop ex env t cwd r i' (acc @ add) w')"
proof -
  consider (fin) "length r \<le> i"
    | (curly) "i + 1 < length r" "r ! i = dollar" "r ! (i + 1) = lbrace"
    | (round) "i + 1 < length r" "r ! i = dollar" "r ! (i + 1) = lparen"
    | (copy) "i < length r"
        "\<not> (i + 1 < length r \<and> r ! i = dollar \<and> (r ! (i + 1) = lbrace \<or> r ! (i + 1) = lparen))"
    by fastforce
  then show ?thesis
  proof cases
    case fin
    then show ?thesis by (simp add: resolve_loop_done)
  next
    case copy
    then have "i < i + 1 \<and> i < length r \<and>
        resolve_loop ex env t cwd r i acc w = resolve_loop ex env t cwd r (i + 1) (acc @ [r ! i]) w"
      using resolve_loop_copy [of i r ex env t cwd acc w] by simp
    then show ?thesis by blast
  next
    case curly
    define endIdx where "endIdx = findEndingParenthesis r (int (i + 1)) lbrace rbrace"
    note step = resolve_loop_curly [OF curly endIdx_def [symmetric], of ex env t cwd acc w]
    show ?thesis
    proof (cases "endIdx = - 1 \<or> endIdx = int (length r)
                    \<or> env (go_slice r (i + 2) (nat endIdx)) = None")
      case True
      then show ?thesis using step by auto
    next
      case False
      then obtain val where v: "env (go_slice r (i + 2) (nat endIdx)) = Some val" by auto
      from False findEndingParenthesis_gt [of r "int (i + 1)" lbrace rbrace]
      have "i < nat (endIdx + 1)" by (simp add: endIdx_def)
      moreover have "resolve_loop ex env t cwd r i acc w
          = resolve_loop ex env t cwd r (nat (endIdx + 1)) (acc @ val) w"
        using step False v by simp
      ultimately show ?thesis using curly(1) by (intro disjI2) (metis Suc_lessD Suc_eq_plus1)
    qed
  next
    case round
    define endIdx where "endIdx = findEndingParenthesis r (int (i + 1)) lparen rparen"
    note step = resolve_loop_round [OF round endIdx_def [symmetric], of ex env t cwd acc w]
    obtain retCode out err w' where
      x: "ex w t cwd (go_slice r (i + 2) (nat endIdx)) = ((retCode, out, err), w')"
      by (metis surj_pair)
    show ?thesis
    proof (cases "endIdx = - 1 \<or> endIdx = int (length r) \<or> retCode = - 1")
      case True
      then show ?thesis using step x by auto
    next
      case False
      from False findEndingParenthesis_gt [of r "int (i + 1)" lparen rparen]
      have "i < nat (endIdx + 1)" by (simp add: endIdx_def)
      moreover have "resolve_loop ex env t cwd r i acc w
          = resolve_loop ex env t cwd r (nat (endIdx + 1)) (acc @ out) w'"
        using step False x by simp
      ultimately show ?thesis using round(1) by (intro disjI2) (metis Suc_lessD Suc_eq_plus1)
    qed
  qed
qed


lemma resolve_loop_prefix:
  "resolve_loop ex env t cwd r i acc w = ((s, None), w') \<Longrightarrow> \<exists>rest. s = acc @ rest"
proof (induction "length r - i" arbitrary: i acc w rule: less_induct)
  case less
  from resolve_loop_step_cases [of r i ex env t cwd acc w] less.prems
  consider (fin) "s = acc"
    | (step) i' add w'' where "i < i'" "i < length r"
        "resolve_loop ex env t cwd r i' (acc @ add) w'' = ((s, None), w')"
    by auto
  then show ?case
  proof cases
    case fin
    then show ?thesis by simp
  next
    case step
    from step(1,2) have "length r - i' < length r - i" by simp
    from less.hyps [OF this step(3)] show ?thesis by auto
  qed
qed

lemma go_slice_bounds:
  assumes "i + 1 < length r" "r ! (i + 1) = opn"
    and "findEndingParenthesis r (int (i + 1)) opn cls = endIdx"
  shows "int (i + 2) \<le> endIdx \<and> endIdx \<le> int (length r)"
proof -
  have "nat (int (i + 1)) = i + 1" by simp
  with assms have "endIdx = int (i + 1) + 1 + int (scan opn cls (drop (i + 1 + 1) r) 1)"
    using findEndingParenthesis_ok [of "int (i + 1)" r opn cls] by simp
  moreover have "scan opn cls (drop (i + 1 + 1) r) 1 \<le> length r - (i + 1 + 1)"
    using scan_le [of opn cls "drop (i + 1 + 1) r" 1] by simp
  ultimately show ?thesis using assms(1) by linarith
qed

lemma span_decomposition:
  assumes "i + 1 < length r" "r ! i = d" "r ! (i + 1) = opn"
    and "findEndingParenthesis r (int (i + 1)) opn cls = int e" "e < length r"
  shows "r = take i r @ [d, opn] @ go_slice r (i + 2) e @ [cls] @ drop (e + 1) r"
proof -
  from go_slice_bounds [OF assms(1) assms(3) assms(4)] have ge: "i + 2 \<le> e" by simp
  from findEndingParenthesis_closing_rune [OF assms(4,5)]
  have cl: "r ! e = cls" .
  have "drop i r = r ! i # r ! (i + 1) # drop (i + 2) r"
    using assms(1) by (simp add: Cons_nth_drop_Suc)
  moreover have "drop (i + 2) r = go_slice r (i + 2) e @ drop e r"
  proof -
    have "e - (i + 2) + (i + 2) = e" using ge by arith
    then have "drop (e - (i + 2)) (drop (i + 2) r) = drop e r" by (simp only: drop_drop)
    then show ?thesis
      unfolding go_slice_def using append_take_drop_id [of "e - (i + 2)" "drop (i + 2) r"] by simp
  qed
  moreover have "drop e r = r ! e # drop (e + 1) r"
    using assms(5) by (simp add: Cons_nth_drop_Suc)
  ultimately have "drop i r = [d, opn] @ go_slice r (i + 2) e @ [cls] @ drop (e + 1) r"
    using assms(2,3) cl by simp
  then show ?thesis using append_take_drop_id [of i r] by metis
qed

lemma resolve_loop_skip:
  assumes "i \<le> j" "j \<le> length r" "\<forall>k. i \<le> k \<and> k < j \<longrightarrow> r ! k \<noteq> dollar"
  shows "resolve_loop ex env t cwd r i acc w = resolve_loop ex env t cwd r j (acc @ go_slice r i j) w"
  using assms
proof (induction j rule: dec_induct)
  case base
  then show ?case by (simp add: go_slice_def)
next
  case (step n)
  then have ih: "resolve_loop ex env t cwd r i acc w
      = resolve_loop ex env t cwd r n (acc @ go_slice r i n) w" by simp
  from step have n: "n < length r" "r ! n \<noteq> dollar" by auto
  have "go_slice r i (Suc n) = go_slice r i n @ [r ! n]"
  proof -
    have "Suc n - i = Suc (n - i)" using step.hyps by simp
    moreover have "n - i < length (drop i r)" using n step.hyps by simp
    moreover have "drop i r ! (n - i) = r ! n" using n step.hyps by simp
    ultimately show ?thesis by (simp add: go_slice_def take_Suc_conv_app_nth)
  qed
  with ih resolve_loop_copy [of n r ex env t cwd "acc @ go_slice r i n" w] n
  show ?case by simp
qed

text \<open>
  Claim C1. Let the scan stand at index \<open>i\<close> on a \<^verbatim>\<open>${\<close> whose matching \<^verbatim>\<open>}\<close> the
  bracket matcher finds at \<open>e\<close>, inside the command. Then the command is the runes before
  \<open>i\<close>, \<^verbatim>\<open>${\<close>, the runes \<open>go_slice cmdRunes (i + 2) e\<close>, \<^verbatim>\<open>}\<close>, and the runes after \<open>e\<close>; that
  slice, as it stands, is the key looked up in the environment. When the variable is
  absent the call returns \<open>EnvVarNotFoundError\<close> with that name; when it is present the
  stored value is appended to the output as it is and the scan goes on behind the
  \<^verbatim>\<open>}\<close>, and an output returned in the end begins with the output so far followed by the
  value. The executor is not called: the world is the one before.
\<close>

theorem resolve_env_span:
  assumes "i + 1 < length cmdRunes" "cmdRunes ! i = dollar" "cmdRunes ! (i + 1) = lbrace"
    and "findEndingParenthesis cmdRunes (int (i + 1)) lbrace rbrace = int e" "e < length cmdRunes"
  shows "cmdRunes = take i cmdRunes @ [dollar, lbrace] @ go_slice cmdRunes (i + 2) e
                      @ [rbrace] @ drop (e + 1) cmdRunes \<and>
     (env (go_slice cmdRunes (i + 2) e) = None \<longrightarrow>
        resolve_loop ex env t cwd cmdRunes i resCommand w
          = (([], Some (EnvVarNotFoundError (go_slice cmdRunes (i + 2) e))), w)) \<and>
     (\<forall>val. env (go_slice cmdRunes (i + 2) e) = Some val \<longrightarrow>
        resolve_loop ex env t cwd cmdRunes i resCommand w
          = resolve_loop ex env t cwd cmdRunes (e + 1) (resCommand @ val) w \<and>
        (\<forall>s w'. resolve_loop ex env t cwd cmdRunes i resCommand w = ((s, None), w')
           \<longrightarrow> (\<exists>rest. s = resCommand @ val @ rest)))"
proof -
  have step: "resolve_loop ex env t cwd cmdRunes i resCommand w =
     (case env (go_slice cmdRunes (i + 2) e) of
        None \<Rightarrow> (([], Some (EnvVarNotFoundError (go_slice cmdRunes (i + 2) e))), w)
      | Some val \<Rightarrow> resolve_loop ex env t cwd cmdRunes (e + 1) (resCommand @ val) w)"
    using resolve_loop_curly [OF assms(1-4), of ex env t cwd resCommand w] assms(5)
    by (simp add: nat_add_distrib split: option.splits)
  have pre: "\<exists>rest. s = resCommand @ val @ rest"
    if "env (go_slice cmdRunes (i + 2) e) = Some val"
      and "resolve_loop ex env t cwd cmdRunes i resCommand w = ((s, None), w')" for val s w'
    using that step resolve_loop_prefix [of ex env t cwd cmdRunes "e + 1" "resCommand @ val" w s w']
    by simp
  show ?thesis
    using span_decomposition [OF assms] step pre by (auto split: option.splits)
qed

theorem resolve_env_span_witness:
  "resolveShellSubstitution (\<lambda>w t cwd cmd. ((0, [], None :: unit option), w)) Map.empty 5
      (runes ''${$(pwd)}'') (runes ''/'') ()
     = (([], Some (EnvVarNotFoundError (runes ''$(pwd)''))), ()) \<and>
   resolveShellSubstitution (\<lambda>w t cwd cmd. ((0, [], None :: unit option), w))
      [runes ''A'' \<mapsto> runes ''v w''] 5 (runes ''${A}'') (runes ''/'') ()
     = ((runes ''v w'', None), ())"
proof -
  let ?ex = "\<lambda>(w :: unit) (t :: int) (cwd :: gostring) (cmd :: gostring).
               ((0 :: int, [] :: gostring, None :: unit option), w)"
  have a: "0 + 1 < length (runes ''${$(pwd)}'')" "runes ''${$(pwd)}'' ! 0 = dollar"
    "runes ''${$(pwd)}'' ! (0 + 1) = lbrace"
    "findEndingParenthesis (runes ''${$(pwd)}'') (int (0 + 1)) lbrace rbrace = int 8"
    "8 < length (runes ''${$(pwd)}'')"
    by (simp_all add: eval_defs)
  have b: "0 + 1 < length (runes ''${A}'')" "runes ''${A}'' ! 0 = dollar"
    "runes ''${A}'' ! (0 + 1) = lbrace"
    "findEndingParenthesis (runes ''${A}'') (int (0 + 1)) lbrace rbrace = int 3"
    "3 < length (runes ''${A}'')"
    by (simp_all add: eval_defs)
  have n1: "go_slice (runes ''${$(pwd)}'') (0 + 2) 8 = runes ''$(pwd)''"
    and n2: "go_slice (runes ''${A}'') (0 + 2) 3 = runes ''A''"
    by (simp_all add: go_slice_def runes_def)
  from resolve_env_span [OF a, of Map.empty ?ex 5 "runes ''/''" "[]" "()"]
  have "resolve_loop ?ex Map.empty 5 (runes ''/'') (runes ''${$(pwd)}'') 0 [] ()
      = (([], Some (EnvVarNotFoundError (runes ''$(pwd)''))), ())"
    unfolding n1 by simp
  moreover
  from resolve_env_span [OF b, of "[runes ''A'' \<mapsto> runes ''v w'']" ?ex 5 "runes ''/''" "[]" "()"]
  have "resolve_loop ?ex [runes ''A'' \<mapsto> runes ''v w''] 5 (runes ''/'') (runes ''${A}'') 0 [] ()
      = resolve_loop ?ex [runes ''A'' \<mapsto> runes ''v w''] 5 (runes ''/'') (runes ''${A}'') (3 + 1)
          ([] @ runes ''v w'') ()"
    unfolding n2 by simp
  moreover have "resolve_loop ?ex [runes ''A'' \<mapsto> runes ''v w''] 5 (runes ''/'') (runes ''${A}'')
      (3 + 1) ([] @ runes ''v w'') () = ((runes ''v w'', None), ())"
    by (simp add: resolve_loop_done runes_def)
  ultimately show ?thesis by (simp add: resolveShellSubstitution_def)
qed

text \<open>
  Claim C3. Let the scan stand at index \<open>i\<close> on a \<^verbatim>\<open>$(\<close> whose matching \<^verbatim>\<open>)\<close> is found at
  \<open>e\<close>, inside the command, and let the executor return \<open>(retCode, output, err)\<close> for the
  text between them. When \<open>retCode\<close> is not \<open>-1\<close>, zero or not, the output is appended as
  it is and the scan goes on behind the \<^verbatim>\<open>)\<close>, with no error from this span; when
  \<open>retCode\<close> is \<open>-1\<close> the call returns the error that wraps \<open>err\<close>.
\<close>

theorem resolve_command_span:
  assumes "i + 1 < length cmdRunes" "cmdRunes ! i = dollar" "cmdRunes ! (i + 1) = lparen"
    and "findEndingParenthesis cmdRunes (int (i + 1)) lparen rparen = int e" "e < length cmdRunes"
    and "ex w t cwd (go_slice cmdRunes (i + 2) e) = ((retCode, output, err), w')"
  shows "(retCode \<noteq> - 1 \<longrightarrow>
        resolve_loop ex env t cwd cmdRunes i resCommand w
          = resolve_loop ex env t cwd cmdRunes (e + 1) (resCommand @ output) w' \<and>
        (\<forall>s w''. resolve_loop ex env t cwd cmdRunes i resCommand w = ((s, None), w'')
           \<longrightarrow> (\<exists>rest. s = resCommand @ output @ rest))) \<and>
     (retCode = - 1 \<longrightarrow>
        resolve_loop ex env t cwd cmdRunes i resCommand w
          = (([], Some (ShellSubstitutionError (go_slice cmdRunes (i + 2) e) err)), w'))"
proof -
  have step: "resolve_loop ex env t cwd cmdRunes i resCommand w =
     (if retCode = - 1
      then (([], Some (ShellSubstitutionError (go_slice cmdRunes (i + 2) e) err)), w')
      else resolve_loop ex env t cwd cmdRunes (e + 1) (resCommand @ output) w')"
    using resolve_loop_round [OF assms(1-4), of ex env t cwd resCommand w] assms(5,6)
    by (simp add: nat_add_distrib)
  have pre: "\<exists>rest. s = resCommand @ output @ rest"
    if "retCode \<noteq> - 1"
      and "resolve_loop ex env t cwd cmdRunes i resCommand w = ((s, None), w'')" for s w''
    using that step
      resolve_loop_prefix [of ex env t cwd cmdRunes "e + 1" "resCommand @ output" w' s w'']
    by simp
  show ?thesis using step pre by auto
qed

theorem resolve_command_span_witness:
  "resolveShellSubstitution (\<lambda>w t cwd cmd. ((1, runes ''out'', None :: unit option), Suc w))
      Map.empty 5 (runes ''$(false)'') (runes ''/'') 0 = ((runes ''out'', None), 1) \<and>
   resolveShellSubstitution (\<lambda>w t cwd cmd. ((- 1, runes ''out'', Some ()), Suc w))
      Map.empty 5 (runes ''$(false)'') (runes ''/'') 0
     = (([], Some (ShellSubstitutionError (runes ''false'') (Some ()))), 1)"
proof -
  let ?r = "runes ''$(false)''"
  let ?ok = "\<lambda>(w :: nat) (t :: int) (cwd :: gostring) (cmd :: gostring).
               ((1 :: int, runes ''out'', None :: unit option), Suc w)"
  let ?bad = "\<lambda>(w :: nat) (t :: int) (cwd :: gostring) (cmd :: gostring).
               ((- 1 :: int, runes ''out'', Some ()), Suc w)"
  have a: "0 + 1 < length ?r" "?r ! 0 = dollar" "?r ! (0 + 1) = lparen"
    "findEndingParenthesis ?r (int (0 + 1)) lparen rparen = int 7" "7 < length ?r"
    by (simp_all add: eval_defs)
  from resolve_command_span [where ex = ?ok and w = 0 and t = 5 and cwd = "runes ''/''"
      and env = Map.empty and resCommand = "[]", OF a refl]
  have "resolve_loop ?ok Map.empty 5 (runes ''/'') ?r 0 [] 0 = ((runes ''out'', None), 1)"
    by (simp add: resolve_loop_done runes_def)
  moreover
  from resolve_command_span [where ex = ?bad and w = 0 and t = 5 and cwd = "runes ''/''"
      and env = Map.empty and resCommand = "[]", OF a refl]
  have "resolve_loop ?bad Map.empty 5 (runes ''/'') ?r 0 [] 0
      = (([], Some (ShellSubstitutionError (runes ''false'') (Some ()))), 1)"
    by (simp add: go_slice_def runes_def)
  ultimately show ?thesis by (simp add: resolveShellSubstitution_def)
qed



text \<open>
  Claim C5. When the scan stands on a \<^verbatim>\<open>$(\<close> for which the bracket matcher returns the
  length of the command, the call returns \<open>BracketParMatchError\<close>. So does
  \<^verbatim>\<open>tokenizePromptCommand\<close>, with no tokens, on every command whose first \<^verbatim>\<open>$\<close> opens
  such a \<^verbatim>\<open>$(\<close>, and in particular on \<^verbatim>\<open>abcd $(xyz\<close>.
\<close>

theorem unterminated_round_bracket:
  "(i + 1 < length cmdRunes \<and> cmdRunes ! i = dollar \<and> cmdRunes ! (i + 1) = lparen \<and>
    findEndingParenthesis cmdRunes (int (i + 1)) lparen rparen = int (length cmdRunes) \<longrightarrow>
      resolve_loop ex env t cwd cmdRunes i resCommand w = (([], Some BracketParMatchError), w)) \<and>
   (dollar \<notin> set pre \<and>
    findEndingParenthesis (pre @ dollar # lparen # rest) (int (length pre + 1)) lparen rparen
      = int (length (pre @ dollar # lparen # rest)) \<longrightarrow>
      tokenizePromptCommand ex env t (pre @ dollar # lparen # rest) cwd w
        = ((None, Some BracketParMatchError), w)) \<and>
   tokenizePromptCommand ex env t (runes ''abcd $(xyz'') cwd w
     = ((None, Some BracketParMatchError), w)"
proof (intro conjI impI)
  assume a: "i + 1 < length cmdRunes \<and> cmdRunes ! i = dollar \<and> cmdRunes ! (i + 1) = lparen \<and>
    findEndingParenthesis cmdRunes (int (i + 1)) lparen rparen = int (length cmdRunes)"
  then show "resolve_loop ex env t cwd cmdRunes i resCommand w = (([], Some BracketParMatchError), w)"
    using resolve_loop_round [of i cmdRunes "int (length cmdRunes)" ex env t cwd resCommand w]
    by simp
next
  assume a: "dollar \<notin> set pre \<and>
    findEndingParenthesis (pre @ dollar # lparen # rest) (int (length pre + 1)) lparen rparen
      = int (length (pre @ dollar # lparen # rest))"
  define r where "r = pre @ dollar # lparen # rest"
  have nd: "\<forall>k. 0 \<le> k \<and> k < length pre \<longrightarrow> r ! k \<noteq> dollar"
    using a by (auto simp: r_def nth_append dest: nth_mem)
  have "resolve_loop ex env t cwd r 0 [] w
      = resolve_loop ex env t cwd r (length pre) ([] @ go_slice r 0 (length pre)) w"
    by (rule resolve_loop_skip) (use nd in \<open>auto simp: r_def\<close>)
  also have "\<dots> = (([], Some BracketParMatchError), w)"
    using resolve_loop_round [of "length pre" r "int (length r)" ex env t cwd _ w] a
    by (simp add: r_def nth_append)
  finally show "tokenizePromptCommand ex env t (pre @ dollar # lparen # rest) cwd w
        = ((None, Some BracketParMatchError), w)"
    by (simp add: tokenizePromptCommand_def resolveShellSubstitution_def r_def)
next
  show "tokenizePromptCommand ex env t (runes ''abcd $(xyz'') cwd w
     = ((None, Some BracketParMatchError), w)"
    by (simp add: tokenizePromptCommand_def resolveShellSubstitution_def runes_def
        resolve_loop.simps findEndingParenthesis_def findEndingParenthesis_loop.simps
        dollar_def lparen_def lbrace_def rparen_def)
qed

theorem unterminated_round_bracket_witness:
  "findEndingParenthesis (runes ''abcd $(xyz'') 6 lparen rparen = int (length (runes ''abcd $(xyz'')) \<and>
   resolve_loop (\<lambda>w t cwd cmd. ((0, [], None :: unit option), w)) Map.empty 5 (runes ''/'')
      (runes ''abcd $(xyz'') 5 (runes ''abcd '') () = (([], Some BracketParMatchError), ()) \<and>
   dollar \<notin> set (runes ''ab '') \<and>
   tokenizePromptCommand (\<lambda>w t cwd cmd. ((0, [], None :: unit option), w)) Map.empty 5
      (runes ''ab '' @ dollar # lparen # runes ''c(d)'') (runes ''/'') ()
     = ((None, Some BracketParMatchError), ())"
proof -
  let ?ex = "\<lambda>(w :: unit) (t :: int) (cwd :: gostring) (cmd :: gostring).
               ((0 :: int, [] :: gostring, None :: unit option), w)"
  have h1: "5 + 1 < length (runes ''abcd $(xyz'') \<and> runes ''abcd $(xyz'' ! 5 = dollar \<and>
      runes ''abcd $(xyz'' ! (5 + 1) = lparen \<and>
      findEndingParenthesis (runes ''abcd $(xyz'') (int (5 + 1)) lparen rparen
        = int (length (runes ''abcd $(xyz''))"
    by (simp add: eval_defs)
  have h2: "dollar \<notin> set (runes ''ab '') \<and>
      findEndingParenthesis (runes ''ab '' @ dollar # lparen # runes ''c(d)'')
         (int (length (runes ''ab '') + 1)) lparen rparen
        = int (length (runes ''ab '' @ dollar # lparen # runes ''c(d)''))"
    by (simp add: eval_defs)
  from unterminated_round_bracket [of 5 "runes ''abcd $(xyz''" ?ex Map.empty 5 "runes ''/''"
      "runes ''abcd ''" "()" "runes ''ab ''" "runes ''c(d)''"] h1 h2
  show ?thesis by simp
qed



section \<open>Timeout of a substituted command\<close>



section \<open>Tokens of the pipeline\<close>

lemma is_field_single: "\<not> isSpace c \<Longrightarrow> is_field [c]"
  by (simp add: is_field_def)

lemma is_field_snoc: "is_field tok \<Longrightarrow> \<not> isSpace c \<Longrightarrow> is_field (tok @ [c])"
  by (simp add: is_field_def)

lemma Fields_loop_fields:
  "list_all is_field spans \<Longrightarrow> (case cur of None \<Rightarrow> True | Some field \<Rightarrow> is_field field) \<Longrightarrow>
     list_all is_field (Fields_loop s cur spans)"
proof (induction s cur spans rule: Fields_loop.induct)
  case (1 spans)
  then show ?case by simp
next
  case (2 field spans)
  then show ?case by simp
next
  case (3 c cs spans)
  then show ?case by (cases "isSpace c") (simp_all add: is_field_single)
next
  case (4 c cs field spans)
  then show ?case by (cases "isSpace c") (simp_all add: is_field_snoc)
qed

lemma Fields_tokens: "list_all is_field (Fields s)"
  unfolding Fields_def by (rule Fields_loop_fields) simp_all

text \<open>
  Claim C10. Whenever \<^verbatim>\<open>tokenizePromptCommand\<close> succeeds, no returned token is empty
  and no returned token holds a white-space rune; so the empty token that the
  quote-aware tokenizer gives for \<^verbatim>\<open>""\<close> is never among them.
\<close>

theorem pipeline_tokens_nonempty:
  "tokenizePromptCommand ex env t command cwd w = ((Some toks, None), w') \<Longrightarrow>
     [] \<notin> set toks \<and> (\<forall>tok\<in>set toks. \<forall>c\<in>set tok. \<not> isSpace c)"
proof -
  assume "tokenizePromptCommand ex env t command cwd w = ((Some toks, None), w')"
  then obtain s where "toks = Fields s"
    by (auto simp: tokenizePromptCommand_def split: prod.splits if_splits)
  with Fields_tokens [of s] have "\<forall>tok\<in>set toks. is_field tok"
    by (simp add: list_all_iff)
  then show ?thesis unfolding is_field_def list_all_iff by blast
qed

theorem pipeline_tokens_nonempty_witness:
  "tokenizePromptCommand (\<lambda>w t cwd cmd. ((0, [], None :: unit option), w)) Map.empty 5
      (runes ''    a b  c  '') (runes ''/'') ()
     = ((Some [runes ''a'', runes ''b'', runes ''c''], None), ()) \<and>
   [] \<notin> set [runes ''a'', runes ''b'', runes ''c''] \<and>
   \<not> isSpace (runes ''b'' ! 0)"
proof -
  have "tokenizePromptCommand (\<lambda>w t cwd cmd. ((0, [], None :: unit option), w)) Map.empty 5
      (runes ''    a b  c  '') (runes ''/'') ()
     = ((Some [runes ''a'', runes ''b'', runes ''c''], None), ())"
    by (simp add: eval_defs)
  from this pipeline_tokens_nonempty [OF this] show ?thesis by (simp add: runes_def)
qed

section \<open>Properties of the quote-aware tokenizer\<close>

lemma quote_runes [simp]:
  "squote \<noteq> backslash" "dquote \<noteq> backslash" "squote \<noteq> dquote" "dquote \<noteq> squote"
  "\<not> isSpace squote" "\<not> isSpace dquote"
  by (simp_all add: squote_def dquote_def backslash_def isSpace_def)

lemma complete_token_append:
  "complete_token cur (first @ tokens) = first @ complete_token cur tokens"
  by (simp add: complete_token_def split: option.splits)

lemma tokenize_loop_prepend:
  "tokenize_loop m cur (first @ tokens) s = prepend_tokens first (tokenize_loop m cur tokens s)"
  by (induction m cur tokens s rule: tokenize_loop.induct)
     (simp_all add: prepend_tokens_def complete_token_append)

lemma single_quoted_step:
  "c \<noteq> squote \<Longrightarrow> c \<noteq> backslash \<Longrightarrow>
   tokenize_loop SingleQuoted cur tokens (c # xs)
     = tokenize_loop SingleQuoted (append_token cur [c]) tokens xs"
  by (cases xs) simp_all

lemma single_quoted_close:
  "tokenize_loop SingleQuoted cur tokens (squote # xs)
     = tokenize_loop Bare None (complete_token (append_token cur []) tokens) xs"
  by (cases xs) simp_all

lemma double_quoted_step:
  "c \<noteq> dquote \<Longrightarrow> c \<noteq> backslash \<Longrightarrow>
   tokenize_loop DoubleQuoted cur tokens (c # xs)
     = tokenize_loop DoubleQuoted (append_token cur [c]) tokens xs"
  by (cases xs) simp_all

lemma double_quoted_close:
  "tokenize_loop DoubleQuoted cur tokens (dquote # xs)
     = tokenize_loop Bare None (complete_token (append_token cur []) tokens) xs"
  by (cases xs) simp_all

lemma single_quoted_body:
  "squote \<notin> set body \<Longrightarrow> backslash \<notin> set body \<Longrightarrow>
   tokenize_loop SingleQuoted (Some tok) tokens (body @ squote # rest)
     = tokenize_loop Bare None (tokens @ [tok @ body]) rest"
proof (induction body arbitrary: tok)
  case Nil
  then show ?case by (simp add: single_quoted_close append_token_def complete_token_def)
next
  case (Cons c body)
  then have "c \<noteq> squote" "c \<noteq> backslash" by auto
  with Cons show ?case by (simp add: single_quoted_step append_token_def)
qed

lemma double_quoted_body:
  "dquote \<notin> set body \<Longrightarrow> backslash \<notin> set body \<Longrightarrow>
   tokenize_loop DoubleQuoted (Some tok) tokens (body @ dquote # rest)
     = tokenize_loop Bare None (tokens @ [tok @ body]) rest"
proof (induction body arbitrary: tok)
  case Nil
  then show ?case by (simp add: double_quoted_close append_token_def complete_token_def)
next
  case (Cons c body)
  then have "c \<noteq> dquote" "c \<noteq> backslash" by auto
  with Cons show ?case by (simp add: double_quoted_step append_token_def)
qed

lemma bare_opens_quote:
  "tokenize_loop Bare cur tokens (squote # x # xs)
     = tokenize_loop SingleQuoted (append_token cur []) tokens (x # xs)"
  "tokenize_loop Bare cur tokens (dquote # x # xs)
     = tokenize_loop DoubleQuoted (append_token cur []) tokens (x # xs)"
  by simp_all

lemma quoted_run:
  assumes "q = squote \<or> q = dquote" "q \<notin> set body" "backslash \<notin> set body"
  shows "tokenize_loop Bare cur tokens (q # body @ q # rest)
     = tokenize_loop Bare None (tokens @ [(case cur of None \<Rightarrow> [] | Some tok \<Rightarrow> tok) @ body]) rest"
proof -
  obtain x xs where l: "body @ q # rest = x # xs" by (cases "body @ q # rest") auto
  have a: "append_token cur [] = Some (case cur of None \<Rightarrow> [] | Some tok \<Rightarrow> tok)"
    by (simp add: append_token_def split: option.splits)
  from assms(1) show ?thesis
  proof
    assume q: "q = squote"
    have "tokenize_loop Bare cur tokens (q # body @ q # rest)
        = tokenize_loop SingleQuoted (append_token cur []) tokens (body @ q # rest)"
      using bare_opens_quote(1) [of cur tokens x xs] l q by (simp only:)
    with assms(2,3) show ?thesis unfolding a q by (simp add: single_quoted_body)
  next
    assume q: "q = dquote"
    have "tokenize_loop Bare cur tokens (q # body @ q # rest)
        = tokenize_loop DoubleQuoted (append_token cur []) tokens (body @ q # rest)"
      using bare_opens_quote(2) [of cur tokens x xs] l q by (simp only:)
    with assms(2,3) show ?thesis unfolding a q by (simp add: double_quoted_body)
  qed
qed

text \<open>
  Claim C8. With the tokenizer modelled from the spec: in bare mode, a quote \<open>q\<close>, a
  body holding neither \<open>q\<close> nor a backslash, and the closing \<open>q\<close> complete one token (the
  open token, if there is one, followed by the body) and leave no token open, whatever
  follows: the rest of the input is tokenized on its own. So a quoted run at the start of
  the input is the first token and the tokens of the rest follow it. Two double-quoted
  runs \<^verbatim>\<open>hello\<close> and \<^verbatim>\<open>world\<close> with nothing between them give the two tokens, and an
  empty pair of quotes gives the token that is the empty string.
\<close>

theorem quoted_run_is_own_token:
  "((q = squote \<or> q = dquote) \<and> q \<notin> set body \<and> backslash \<notin> set body \<longrightarrow>
      tokenize_loop Bare cur tokens (q # body @ q # rest)
        = tokenize_loop Bare None
            (tokens @ [(case cur of None \<Rightarrow> [] | Some tok \<Rightarrow> tok) @ body]) rest \<and>
      tokenizeWithQuotes (q # body @ q # rest)
        = prepend_tokens [body] (tokenizeWithQuotes rest)) \<and>
   tokenizeWithQuotes (dquote # runes ''hello'' @ dquote # dquote # runes ''world'' @ [dquote])
     = (Some [runes ''hello'', runes ''world''], None) \<and>
   tokenizeWithQuotes [dquote, dquote] = (Some [[]], None) \<and>
   tokenizeWithQuotes [squote, squote] = (Some [[]], None)"
proof (intro conjI impI)
  assume a: "(q = squote \<or> q = dquote) \<and> q \<notin> set body \<and> backslash \<notin> set body"
  then show "tokenize_loop Bare cur tokens (q # body @ q # rest)
        = tokenize_loop Bare None
            (tokens @ [(case cur of None \<Rightarrow> [] | Some tok \<Rightarrow> tok) @ body]) rest"
    by (simp add: quoted_run)
  from a have "tokenizeWithQuotes (q # body @ q # rest) = tokenize_loop Bare None ([body] @ []) rest"
    unfolding tokenizeWithQuotes_def using quoted_run [of q body None "[]" rest] by simp
  then show "tokenizeWithQuotes (q # body @ q # rest)
        = prepend_tokens [body] (tokenizeWithQuotes rest)"
    unfolding tokenizeWithQuotes_def by (simp only: tokenize_loop_prepend)
next
  show "tokenizeWithQuotes (dquote # runes ''hello'' @ dquote # dquote # runes ''world'' @ [dquote])
     = (Some [runes ''hello'', runes ''world''], None)"
    by (simp add: tokenizeWithQuotes_def runes_def dquote_def squote_def backslash_def isSpace_def
        append_token_def complete_token_def)
  show "tokenizeWithQuotes [dquote, dquote] = (Some [[]], None)"
    by (simp add: tokenizeWithQuotes_def append_token_def complete_token_def)
  show "tokenizeWithQuotes [squote, squote] = (Some [[]], None)"
    by (simp add: tokenizeWithQuotes_def append_token_def complete_token_def)
qed

theorem quoted_run_is_own_token_witness:
  "tokenizeWithQuotes (squote # runes ''a b'' @ squote # runes ''cd'')
     = (Some [runes ''a b'', runes ''cd''], None) \<and>
   tokenizeWithQuotes (dquote # runes ''a b'' @ dquote # squote # runes ''c'' @ [squote])
     = (Some [runes ''a b'', runes ''c''], None)"
proof -
  have h: "(squote = squote \<or> squote = dquote) \<and> squote \<notin> set (runes ''a b'') \<and>
      backslash \<notin> set (runes ''a b'')"
    "(dquote = squote \<or> dquote = dquote) \<and> dquote \<notin> set (runes ''a b'') \<and>
      backslash \<notin> set (runes ''a b'')"
    by (simp_all add: runes_def squote_def dquote_def backslash_def)
  have t: "tokenizeWithQuotes (runes ''cd'') = (Some [runes ''cd''], None)"
    "tokenizeWithQuotes (squote # runes ''c'' @ [squote]) = (Some [runes ''c''], None)"
    by (simp_all add: tokenizeWithQuotes_def runes_def squote_def dquote_def backslash_def
        isSpace_def append_token_def complete_token_def)
  from quoted_run_is_own_token [of squote "runes ''a b''" None "[]" "runes ''cd''"] h(1)
  have "tokenizeWithQuotes (squote # runes ''a b'' @ squote # runes ''cd'')
      = prepend_tokens [runes ''a b''] (tokenizeWithQuotes (runes ''cd''))"
    by blast
  moreover
  from quoted_run_is_own_token [of dquote "runes ''a b''" None "[]" "squote # runes ''c'' @ [squote]"]
    h(2)
  have "tokenizeWithQuotes (dquote # runes ''a b'' @ dquote # squote # runes ''c'' @ [squote])
      = prepend_tokens [runes ''a b''] (tokenizeWithQuotes (squote # runes ''c'' @ [squote]))"
    by blast
  ultimately show ?thesis by (simp add: t prepend_tokens_def)
qed

end
